theory Spec2Isabelle
  imports Main
begin

section \<open>Strings and the Unicode data the program relies on\<close>

text \<open>
  A Python \<^verbatim>\<open>str\<close> is a sequence of Unicode code points; \<^verbatim>\<open>len\<close> counts code
  points. A code point is a natural number, and a string is a list of them. ASCII
  literals of the source are written with \<open>lit\<close>.
\<close>

type_synonym ustr = "nat list"

definition lit :: "string \<Rightarrow> ustr" where
  "lit s = map of_char s"

text \<open>
  The program calls into Python's Unicode tables: \<^verbatim>\<open>unicodedata.normalize('NFKD', _)\<close>,
  \<^verbatim>\<open>str.lower()\<close>, and the regular-expression engine's \<^verbatim>\<open>\w\<close> class and
  \<^verbatim>\<open>re.IGNORECASE\<close> comparison. These tables are not part of the repository, so
  they are a parameter of the model:
  \<^item> \<open>ucd_decomp\<close>: the full compatibility decomposition of one code point;
  \<^item> \<open>ucd_ccc\<close>: the canonical combining class of a code point (0 for a starter);
  \<^item> \<open>str_lower\<close>: \<^verbatim>\<open>str.lower()\<close> on a whole string;
  \<^item> \<open>re_ieq k t\<close>: under \<^verbatim>\<open>re.IGNORECASE\<close> the literal pattern character \<open>k\<close>
    matches the text character \<open>t\<close>;
  \<^item> \<open>re_word\<close>: the class \<^verbatim>\<open>\w\<close>.
\<close>

record unicode_db =
  ucd_decomp :: "nat \<Rightarrow> nat list"
  ucd_ccc :: "nat \<Rightarrow> nat"
  str_lower :: "ustr \<Rightarrow> ustr"
  re_ieq :: "nat \<Rightarrow> nat \<Rightarrow> bool"
  re_word :: "nat \<Rightarrow> bool"

text \<open>
  Whitespace is the same fixed set for \<^verbatim>\<open>str.strip()\<close>, \<^verbatim>\<open>str.split()\<close>,
  \<^verbatim>\<open>str.isspace()\<close> and the class \<^verbatim>\<open>\s\<close> of a \<^verbatim>\<open>str\<close> pattern: U+0009..U+000D,
  U+001C..U+001F, U+0020, U+0085, U+00A0, U+1680, U+2000..U+200A, U+2028, U+2029,
  U+202F, U+205F and U+3000.
\<close>

definition isspace :: "nat \<Rightarrow> bool" where
  "isspace c \<longleftrightarrow>
     (9 \<le> c \<and> c \<le> 13) \<or> (28 \<le> c \<and> c \<le> 32) \<or> c = 133 \<or> c = 160 \<or> c = 5760 \<or>
     (8192 \<le> c \<and> c \<le> 8202) \<or> c = 8232 \<or> c = 8233 \<or> c = 8239 \<or> c = 8287 \<or> c = 12288"

text \<open>\<^verbatim>\<open>s.strip()\<close>: whitespace removed at both ends.\<close>

definition strip :: "ustr \<Rightarrow> ustr" where
  "strip s = rev (dropWhile isspace (rev (dropWhile isspace s)))"

text \<open>\<^verbatim>\<open>s.startswith(p)\<close> and \<^verbatim>\<open>p in s\<close> (substring containment).\<close>

fun startswith :: "ustr \<Rightarrow> ustr \<Rightarrow> bool" where
  "startswith s [] = True"
| "startswith [] (p # ps) = False"
| "startswith (c # cs) (p # ps) = (c = p \<and> startswith cs ps)"

fun contains :: "ustr \<Rightarrow> ustr \<Rightarrow> bool" where
  "contains p [] = (p = [])"
| "contains p (c # cs) = (startswith (c # cs) p \<or> contains p cs)"

text \<open>\<^verbatim>\<open>s.split(sep)\<close> for a one-character separator: never an empty list.\<close>

fun split_on :: "nat \<Rightarrow> ustr \<Rightarrow> ustr list" where
  "split_on sep [] = [[]]"
| "split_on sep (c # cs) =
     (if c = sep then [] # split_on sep cs
      else (case split_on sep cs of
              [] \<Rightarrow> [[c]]
            | w # ws \<Rightarrow> (c # w) # ws))"

text \<open>\<^verbatim>\<open>sep.join(parts)\<close>.\<close>

fun join :: "ustr \<Rightarrow> ustr list \<Rightarrow> ustr" where
  "join sep [] = []"
| "join sep [x] = x"
| "join sep (x # y # ys) = x @ sep @ join sep (y # ys)"

text \<open>\<^verbatim>\<open>str(n)\<close> for a non-negative integer: its decimal digits.\<close>

fun str_of_nat :: "nat \<Rightarrow> ustr" where
  "str_of_nat n = (if n < 10 then [48 + n] else str_of_nat (n div 10) @ [48 + n mod 10])"

declare str_of_nat.simps [simp del]

section \<open>Text normalisation (\<^verbatim>\<open>LivestockProjectFilter._normalize_text\<close>)\<close>

text \<open>
  \<^verbatim>\<open>unicodedata.normalize('NFKD', text)\<close>: every code point is replaced by its full
  compatibility decomposition, then combining marks are put into canonical order: a
  mark moves left past the marks of a higher combining class, never past a starter.
  \<open>insert_mark\<close> works on the reversed prefix already ordered.
\<close>

fun insert_mark :: "unicode_db \<Rightarrow> nat \<Rightarrow> ustr \<Rightarrow> ustr" where
  "insert_mark U c [] = [c]"
| "insert_mark U c (p # ps) =
     (if ucd_ccc U p \<noteq> 0 \<and> ucd_ccc U c \<noteq> 0 \<and> ucd_ccc U c < ucd_ccc U p
      then p # insert_mark U c ps
      else c # p # ps)"

definition canonical_order :: "unicode_db \<Rightarrow> ustr \<Rightarrow> ustr" where
  "canonical_order U s = rev (foldl (\<lambda>acc c. insert_mark U c acc) [] s)"

definition nfkd :: "unicode_db \<Rightarrow> ustr \<Rightarrow> ustr" where
  "nfkd U s = canonical_order U (concat (map (ucd_decomp U) s))"

text \<open>\<^verbatim>\<open>text.replace(a, b)\<close> for single characters.\<close>

definition replace :: "nat \<Rightarrow> nat \<Rightarrow> ustr \<Rightarrow> ustr" where
  "replace a b s = map (\<lambda>c. if c = a then b else c) s"

text \<open>\<^verbatim>\<open>re.sub(r'\s+', ' ', text)\<close>: every maximal run of whitespace becomes one space.\<close>

function collapse_spaces :: "ustr \<Rightarrow> ustr" where
  "collapse_spaces [] = []"
| "collapse_spaces (c # cs) =
     (if isspace c then 32 # collapse_spaces (dropWhile isspace cs)
      else c # collapse_spaces cs)"
  by pat_completeness auto
termination
  by (relation "measure length") (auto simp: less_Suc_eq_le length_dropWhile_le)

text \<open>
  A cell of the data frame is a string or the missing value (\<^verbatim>\<open>NaN\<close>, \<^verbatim>\<open>None\<close>):
  \<open>Some s\<close> or \<open>None\<close>.
\<close>

definition normalize_text :: "unicode_db \<Rightarrow> ustr option \<Rightarrow> ustr" where
  "normalize_text U cell =
     (case cell of
        None \<Rightarrow> []
      | Some text \<Rightarrow>
          (let text = nfkd U text;
               text = replace 160 32 text;
               text = replace 8199 32 text;
               text = replace 8201 32 text;
               text = replace 8202 32 text;
               text = collapse_spaces text
           in strip text))"

section \<open>Keyword matching (\<^verbatim>\<open>_compile_patterns\<close>, \<^verbatim>\<open>find_keywords_in_text\<close>)\<close>

text \<open>
  A compiled pattern is \<^verbatim>\<open>\b\<close>, the escaped keyword as a literal, \<^verbatim>\<open>\b\<close>, with
  \<^verbatim>\<open>re.IGNORECASE\<close>.
\<close>

datatype re_pattern = WordBounded ustr

definition compile_patterns :: "ustr list \<Rightarrow> re_pattern list" where
  "compile_patterns keywords = map WordBounded keywords"

text \<open>
  \<^verbatim>\<open>\b\<close> holds between two positions when exactly one of the neighbouring characters
  is a word character; outside the string counts as a non-word character.
\<close>

definition word_char :: "unicode_db \<Rightarrow> nat option \<Rightarrow> bool" where
  "word_char U c = (case c of None \<Rightarrow> False | Some x \<Rightarrow> re_word U x)"

definition word_boundary :: "unicode_db \<Rightarrow> nat option \<Rightarrow> nat option \<Rightarrow> bool" where
  "word_boundary U prev nxt \<longleftrightarrow> word_char U prev \<noteq> word_char U nxt"

definition head_opt :: "ustr \<Rightarrow> nat option" where
  "head_opt s = (case s of [] \<Rightarrow> None | c # _ \<Rightarrow> Some c)"

text \<open>
  The literal and the closing \<^verbatim>\<open>\b\<close>, matched at the start of \<open>s\<close>; \<open>prev\<close> is the
  character just left of \<open>s\<close> in the text.
\<close>

fun match_literal :: "unicode_db \<Rightarrow> ustr \<Rightarrow> nat option \<Rightarrow> ustr \<Rightarrow> bool" where
  "match_literal U [] prev s = word_boundary U prev (head_opt s)"
| "match_literal U (k # ks) prev [] = False"
| "match_literal U (k # ks) prev (c # cs) = (re_ieq U k c \<and> match_literal U ks (Some c) cs)"

definition match_at :: "unicode_db \<Rightarrow> ustr \<Rightarrow> nat option \<Rightarrow> ustr \<Rightarrow> bool" where
  "match_at U kw prev s \<longleftrightarrow> word_boundary U prev (head_opt s) \<and> match_literal U kw prev s"

text \<open>\<^verbatim>\<open>pattern.search(text)\<close>: a match at some position of the text.\<close>

fun search_from :: "unicode_db \<Rightarrow> ustr \<Rightarrow> nat option \<Rightarrow> ustr \<Rightarrow> bool" where
  "search_from U kw prev [] = match_at U kw prev []"
| "search_from U kw prev (c # cs) = (match_at U kw prev (c # cs) \<or> search_from U kw (Some c) cs)"

fun pattern_search :: "unicode_db \<Rightarrow> re_pattern \<Rightarrow> ustr \<Rightarrow> bool" where
  "pattern_search U (WordBounded kw) text = search_from U kw None text"

text \<open>\<^verbatim>\<open>list(dict.fromkeys(xs))\<close>: the first occurrence of every element, in order.\<close>

fun fromkeys_acc :: "'a list \<Rightarrow> 'a list \<Rightarrow> 'a list" where
  "fromkeys_acc seen [] = seen"
| "fromkeys_acc seen (x # xs) = fromkeys_acc (if x \<in> set seen then seen else seen @ [x]) xs"

definition fromkeys :: "'a list \<Rightarrow> 'a list" where
  "fromkeys xs = fromkeys_acc [] xs"

definition find_keywords_in_text :: "unicode_db \<Rightarrow> ustr list \<Rightarrow> ustr option \<Rightarrow> ustr list" where
  "find_keywords_in_text U keywords cell =
     (if cell = Some [] then []
      else
        (let normalized_text = normalize_text U cell;
             found_keywords =
               map fst (filter (\<lambda>(kw, pattern). pattern_search U pattern normalized_text)
                          (zip keywords (compile_patterns keywords)))
         in fromkeys found_keywords))"

section \<open>Project extraction (\<^verbatim>\<open>parse_pdf_to_dataframe\<close> of \<^verbatim>\<open>process_local_pdfs.py\<close>)\<close>

text \<open>
  A project is a dictionary with the key \<^verbatim>\<open>'Project Name'\<close> and, when a description
  was stored, the key \<^verbatim>\<open>'Project Description'\<close>. The empty dictionary \<^verbatim>\<open>{}\<close> that
  \<^verbatim>\<open>current_project\<close> starts with is \<open>None\<close>.
\<close>

record project =
  project_name :: ustr
  project_description :: "ustr option"

text \<open>\<^verbatim>\<open>any(pattern in line.lower() for pattern in patterns)\<close>.\<close>

definition any_pattern_in :: "unicode_db \<Rightarrow> ustr list \<Rightarrow> ustr \<Rightarrow> bool" where
  "any_pattern_in U patterns line = list_ex (\<lambda>pattern. contains pattern (str_lower U line)) patterns"

definition name_patterns :: "ustr list" where
  "name_patterns = [lit ''project:'', lit ''project name:'', lit ''title:'', lit ''nombre del proyecto:'']"

text \<open>
  The fourth description pattern is written in the source file with the two code points
  U+00C3 and U+00B3 between \<^verbatim>\<open>descripci\<close> and \<^verbatim>\<open>n:\<close>.
\<close>

definition description_patterns :: "ustr list" where
  "description_patterns =
     [lit ''description:'', lit ''project description:'', lit ''summary:'',
      lit ''descripci'' @ [195, 179] @ lit ''n:'']"

definition stop_words :: "ustr list" where
  "stop_words = [lit ''project:'', lit ''title:'', lit ''budget:'', lit ''cost:'', lit ''date:'']"

text \<open>\<^verbatim>\<open>line.split(':', 1)[1].strip() if ':' in line else line.strip()\<close>.\<close>

definition field_value :: "ustr \<Rightarrow> ustr" where
  "field_value line =
     (if 58 \<in> set line then strip (tl (dropWhile (\<lambda>c. c \<noteq> 58) line)) else strip line)"

text \<open>
  The look-ahead for continuation lines: \<open>ls\<close> are the lines after the description
  line (\<^verbatim>\<open>lines[i+1:]\<close>), read until one contains a stop word or the input ends.
\<close>

fun continuation :: "unicode_db \<Rightarrow> ustr \<Rightarrow> ustr list \<Rightarrow> ustr" where
  "continuation U desc [] = desc"
| "continuation U desc (l # ls) =
     (if any_pattern_in U stop_words l then desc
      else continuation U (if strip l \<noteq> [] then desc @ [32] @ strip l else desc) ls)"

text \<open>
  Strategy 1, the loop over the lines: the state is \<^verbatim>\<open>projects\<close> and
  \<^verbatim>\<open>current_project\<close>.
\<close>

fun strategy1_loop ::
  "unicode_db \<Rightarrow> project list \<Rightarrow> project option \<Rightarrow> ustr list \<Rightarrow> project list \<times> project option" where
  "strategy1_loop U projects current [] = (projects, current)"
| "strategy1_loop U projects current (line # rest) =
     (if any_pattern_in U name_patterns line then
        strategy1_loop U
          (case current of None \<Rightarrow> projects | Some p \<Rightarrow> projects @ [p])
          (Some \<lparr>project_name = field_value line, project_description = None\<rparr>)
          rest
      else if any_pattern_in U description_patterns line then
        (case current of
           None \<Rightarrow> strategy1_loop U projects current rest
         | Some p \<Rightarrow>
             strategy1_loop U projects
               (Some (p\<lparr>project_description := Some (continuation U (field_value line) rest)\<rparr>))
               rest)
      else strategy1_loop U projects current rest)"

definition strategy1 :: "unicode_db \<Rightarrow> ustr list \<Rightarrow> project list" where
  "strategy1 U lines =
     (case strategy1_loop U [] None lines of
        (projects, None) \<Rightarrow> projects
      | (projects, Some p) \<Rightarrow> projects @ [p])"

text \<open>Strategy 2: the first header line, then one project per row of two tokens or more.\<close>

definition is_header :: "unicode_db \<Rightarrow> ustr \<Rightarrow> bool" where
  "is_header U line \<longleftrightarrow>
     contains (lit ''project'') (str_lower U line) \<and>
     (contains (lit ''name'') (str_lower U line) \<or> contains (lit ''title'') (str_lower U line))"

text \<open>\<^verbatim>\<open>header_line\<close>: \<open>None\<close> is the source's \<^verbatim>\<open>-1\<close>.\<close>

fun find_header :: "unicode_db \<Rightarrow> ustr list \<Rightarrow> nat option" where
  "find_header U [] = None"
| "find_header U (line # rest) =
     (if is_header U line then Some 0 else map_option Suc (find_header U rest))"

text \<open>\<^verbatim>\<open>line.split()\<close>: the tokens between runs of whitespace.\<close>

fun split_ws_from :: "ustr \<Rightarrow> ustr \<Rightarrow> ustr list" where
  "split_ws_from word [] = (if word = [] then [] else [word])"
| "split_ws_from word (c # cs) =
     (if isspace c then (if word = [] then split_ws_from [] cs else word # split_ws_from [] cs)
      else split_ws_from (word @ [c]) cs)"

definition split_ws :: "ustr \<Rightarrow> ustr list" where
  "split_ws s = split_ws_from [] s"

text \<open>
  \<^verbatim>\<open>line.split(None, 1)\<close>: the first token, and the rest of the line after the
  whitespace that follows it, when there is any.
\<close>

definition split_ws_once :: "ustr \<Rightarrow> ustr list" where
  "split_ws_once s =
     (case dropWhile isspace s of
        [] \<Rightarrow> []
      | c # cs \<Rightarrow>
          (let first = takeWhile (\<lambda>x. \<not> isspace x) (c # cs);
               rest = dropWhile isspace (dropWhile (\<lambda>x. \<not> isspace x) (c # cs))
           in if rest = [] then [first] else [first, rest]))"

text \<open>
  One row of the table. \<^verbatim>\<open>parts[0]\<close> is in range: a line of two tokens has a first
  token (lemma \<open>split_ws_once_nonempty\<close>).
\<close>

definition table_row :: "ustr \<Rightarrow> project list" where
  "table_row line =
     (if line \<noteq> [] \<and> 2 \<le> length (split_ws line) then
        (let parts = split_ws_once line
         in [\<lparr>project_name = hd parts,
              project_description = Some (if 1 < length parts then parts ! 1 else [])\<rparr>])
      else [])"

definition strategy2 :: "unicode_db \<Rightarrow> ustr list \<Rightarrow> project list" where
  "strategy2 U lines =
     (case find_header U lines of
        None \<Rightarrow> []
      | Some header_line \<Rightarrow> concat (map table_row (drop (header_line + 1) lines)))"

text \<open>
  Strategy 3, the loop over the lines: the state is \<^verbatim>\<open>chunks\<close> and
  \<^verbatim>\<open>current_chunk\<close>.
\<close>

fun chunk_loop :: "ustr list \<Rightarrow> ustr list \<Rightarrow> ustr list \<Rightarrow> ustr list \<times> ustr list" where
  "chunk_loop chunks current_chunk [] = (chunks, current_chunk)"
| "chunk_loop chunks current_chunk (line # rest) =
     (if 50 < length line then chunk_loop chunks (current_chunk @ [line]) rest
      else if current_chunk \<noteq> [] then
        chunk_loop
          (if 100 < length (join [32] current_chunk) then chunks @ [join [32] current_chunk]
           else chunks)
          [] rest
      else chunk_loop chunks current_chunk rest)"

definition content_chunks :: "ustr list \<Rightarrow> ustr list" where
  "content_chunks lines =
     (case chunk_loop [] [] lines of
        (chunks, current_chunk) \<Rightarrow>
          (if current_chunk \<noteq> [] \<and> 100 < length (join [32] current_chunk)
           then chunks @ [join [32] current_chunk]
           else chunks))"

text \<open>
  \<^verbatim>\<open>f"Section {i+1}: {title}"\<close>, the title being the first 100 characters of the
  stripped text before the first full stop.
\<close>

definition section_project :: "nat \<Rightarrow> ustr \<Rightarrow> project" where
  "section_project i chunk =
     (let sentences = split_on 46 chunk;
          title = take 100 (strip (hd sentences))
      in \<lparr>project_name = lit ''Section '' @ str_of_nat (i + 1) @ lit '': '' @ title,
          project_description = Some chunk\<rparr>)"

definition strategy3 :: "ustr list \<Rightarrow> project list" where
  "strategy3 lines =
     map (\<lambda>(i, chunk). section_project i chunk) (enumerate 0 (take 10 (content_chunks lines)))"

text \<open>The terminal fallback: one project holding the first 2000 characters of the text.\<close>

definition fallback_project :: "ustr \<Rightarrow> ustr \<Rightarrow> project" where
  "fallback_project pdf_text pdf_filename =
     \<lparr>project_name = lit ''Full Document Analysis - '' @ pdf_filename,
      project_description = Some (take 2000 pdf_text)\<rparr>"

text \<open>\<^verbatim>\<open>[line.strip() for line in pdf_text.split('\n') if line.strip()]\<close>.\<close>

definition lines_of :: "ustr \<Rightarrow> ustr list" where
  "lines_of pdf_text = map strip (filter (\<lambda>line. strip line \<noteq> []) (split_on 10 pdf_text))"

text \<open>
  The two messages the function prints, each when it starts on a later strategy.
\<close>

definition strategy2_message :: "ustr \<Rightarrow> ustr" where
  "strategy2_message pdf_filename =
     lit ''No structured project data found in '' @ pdf_filename @
     lit ''. Trying alternative parsing...''"

definition strategy3_message :: "ustr \<Rightarrow> ustr" where
  "strategy3_message pdf_filename =
     lit ''Creating content-based analysis for '' @ pdf_filename @ lit ''...''"

text \<open>
  The function returns the projects (the rows of the data frame); the second component
  is what it printed, in order.
\<close>

definition parse_pdf_to_dataframe :: "unicode_db \<Rightarrow> ustr \<Rightarrow> ustr \<Rightarrow> project list \<times> ustr list" where
  "parse_pdf_to_dataframe U pdf_text pdf_filename =
     (let lines = lines_of pdf_text;
          projects = strategy1 U lines;
          printed = [];
          (projects, printed) =
            (if projects = []
             then (strategy2 U lines, printed @ [strategy2_message pdf_filename])
             else (projects, printed));
          (projects, printed) =
            (if projects = []
             then (strategy3 lines, printed @ [strategy3_message pdf_filename])
             else (projects, printed));
          projects =
            (if projects = [] then [fallback_project pdf_text pdf_filename] else projects)
      in (projects, printed))"

section \<open>Enrichment (\<^verbatim>\<open>LivestockProjectFilter.process_dataframe\<close>)\<close>

record annotated_project = project +
  keywords_in_name :: ustr
  keywords_in_description :: ustr

text \<open>
  The frame comes back unchanged, after a warning, when a column is missing: the name
  column exists when the frame has a row, the description column when some row has a
  description.
\<close>

datatype frame = Unprocessed ustr "project list" | Processed "annotated_project list"

text \<open>\<^verbatim>\<open>', '.join(found) if found else 'None'\<close>.\<close>

definition keyword_cell :: "ustr list \<Rightarrow> ustr" where
  "keyword_cell found = (if found \<noteq> [] then join (lit '', '') found else lit ''None'')"

definition process_dataframe :: "unicode_db \<Rightarrow> ustr list \<Rightarrow> project list \<Rightarrow> frame" where
  "process_dataframe U keywords df =
     (if df = [] then
        Unprocessed (lit ''WARNING: Column 'Project Name' not found in the data!'') df
      else if list_all (\<lambda>p. project_description p = None) df then
        Unprocessed (lit ''WARNING: Column 'Project Description' not found in the data!'') df
      else
        Processed
          (map (\<lambda>p.
             \<lparr>project_name = project_name p,
              project_description = project_description p,
              keywords_in_name =
                keyword_cell (find_keywords_in_text U keywords (Some (project_name p))),
              keywords_in_description =
                keyword_cell (find_keywords_in_text U keywords (project_description p))\<rparr>) df))"

section \<open>The Unicode tables on ASCII\<close>

definition ascii_lower :: "nat \<Rightarrow> nat" where
  "ascii_lower c = (if 65 \<le> c \<and> c \<le> 90 then c + 32 else c)"

definition ascii_word :: "nat \<Rightarrow> bool" where
  "ascii_word c \<longleftrightarrow> (48 \<le> c \<and> c \<le> 57) \<or> (65 \<le> c \<and> c \<le> 90) \<or> (97 \<le> c \<and> c \<le> 122) \<or> c = 95"

text \<open>
  What Python's tables say about ASCII: an ASCII character has no decomposition and is a
  starter, \<^verbatim>\<open>\w\<close> holds of letters, digits and the underscore, and case is the case
  of the 26 letters.
\<close>

definition ascii_conformant :: "unicode_db \<Rightarrow> bool" where
  "ascii_conformant U \<longleftrightarrow>
     (\<forall>c<128. ucd_decomp U c = [c] \<and> ucd_ccc U c = 0 \<and> re_word U c = ascii_word c) \<and>
     (\<forall>k<128. \<forall>t<128. re_ieq U k t = (ascii_lower k = ascii_lower t)) \<and>
     (\<forall>s. list_all (\<lambda>c. c < 128) s \<longrightarrow> str_lower U s = map ascii_lower s)"

text \<open>
  A small table for evaluating the model: ASCII, the four spaces the normaliser names
  (U+00A0, U+2007, U+2009, U+200A, each decomposing to a space), the letter U+00E9
  (decomposing to \<^verbatim>\<open>e\<close> and the combining acute accent U+0301, class 230) and the
  combining cedilla U+0327 (class 202).
\<close>

definition basic_db :: unicode_db where
  "basic_db =
     \<lparr>ucd_decomp =
        (\<lambda>c. if c = 160 \<or> c = 8199 \<or> c = 8201 \<or> c = 8202 then [32]
             else if c = 233 then [101, 769]
             else [c]),
      ucd_ccc = (\<lambda>c. if c = 769 then 230 else if c = 807 then 202 else 0),
      str_lower = map ascii_lower,
      re_ieq = (\<lambda>k t. ascii_lower k = ascii_lower t),
      re_word = ascii_word\<rparr>"

section \<open>The caller (\<^verbatim>\<open>process_single_pdf\<close>)\<close>

text \<open>
  \<^verbatim>\<open>process_single_pdf\<close> without its file input and output: \<open>pdf_text\<close> is what
  \<^verbatim>\<open>extract_text_from_pdf\<close> read from the file, and the result is the frame that is
  written to the CSV and Excel files, or \<open>None\<close> where the function returns
  \<^verbatim>\<open>False\<close> before it writes anything.
\<close>

definition process_single_pdf :: "unicode_db \<Rightarrow> ustr list \<Rightarrow> ustr \<Rightarrow> ustr \<Rightarrow> frame option" where
  "process_single_pdf U keywords pdf_text pdf_filename =
     (if strip pdf_text = [] then None
      else
        (let df = fst (parse_pdf_to_dataframe U pdf_text pdf_filename)
         in if df = [] then None else Some (process_dataframe U keywords df)))"

section \<open>Notions used to state the properties\<close>

text \<open>The position of the first occurrence of \<open>a\<close> in \<open>xs\<close> (the length of \<open>xs\<close> when there is none).\<close>

definition first_index :: "'a list \<Rightarrow> 'a \<Rightarrow> nat" where
  "first_index xs a = length (takeWhile (\<lambda>x. x \<noteq> a) xs)"

text \<open>A string of ASCII characters only.\<close>

definition is_ascii :: "ustr \<Rightarrow> bool" where
  "is_ascii s \<longleftrightarrow> list_all (\<lambda>c. c < 128) s"

text \<open>
  The keyword occurs in the text, letter case apart, with no word character next to it:
  on each side the text ends or a non-word character stands.
\<close>

definition flanked_occurrence :: "unicode_db \<Rightarrow> ustr \<Rightarrow> ustr \<Rightarrow> bool" where
  "flanked_occurrence U kw text \<longleftrightarrow>
     (\<exists>pre mid post. text = pre @ mid @ post \<and> list_all2 (re_ieq U) kw mid \<and>
        (pre = [] \<or> \<not> re_word U (last pre)) \<and> (post = [] \<or> \<not> re_word U (hd post)))"

text \<open>
  A keyword that begins and ends with a word character, in whatever letter case the
  text has it.
\<close>

definition word_edged :: "unicode_db \<Rightarrow> ustr \<Rightarrow> bool" where
  "word_edged U kw \<longleftrightarrow>
     kw \<noteq> [] \<and> (\<forall>t. re_ieq U (hd kw) t \<longrightarrow> re_word U t) \<and>
     (\<forall>t. re_ieq U (last kw) t \<longrightarrow> re_word U t)"

text \<open>
  Two neighbouring characters are in canonical order when the second need not move in
  front of the first: not both are combining marks with the second of the lower class.
\<close>

definition in_order :: "unicode_db \<Rightarrow> nat \<Rightarrow> nat \<Rightarrow> bool" where
  "in_order U a b \<longleftrightarrow> \<not> (ucd_ccc U a \<noteq> 0 \<and> ucd_ccc U b \<noteq> 0 \<and> ucd_ccc U b < ucd_ccc U a)"

text \<open>
  What the Unicode Character Database guarantees and the normaliser relies on: a full
  decomposition is made of characters that decompose no further, every whitespace
  character is a starter, and the space has no decomposition.
\<close>

definition ucd_stable :: "unicode_db \<Rightarrow> bool" where
  "ucd_stable U \<longleftrightarrow>
     (\<forall>c. \<forall>d\<in>set (ucd_decomp U c). ucd_decomp U d = [d]) \<and>
     (\<forall>c. isspace c \<longrightarrow> ucd_ccc U c = 0) \<and>
     ucd_decomp U 32 = [32]"

section \<open>Evaluation of the model on concrete inputs\<close>

text \<open>
  The definitions that are unfolded when the model is run on a concrete input; the
  recursive functions carry their own equations.
\<close>

lemmas eval_defs =
  normalize_text_def nfkd_def canonical_order_def replace_def strip_def isspace_def
  basic_db_def lit_def ascii_lower_def ascii_word_def find_keywords_in_text_def
  compile_patterns_def fromkeys_def match_at_def word_boundary_def word_char_def
  head_opt_def Let_def

lemmas extract_defs =
  strategy1_def any_pattern_in_def name_patterns_def description_patterns_def stop_words_def
  field_value_def lines_of_def strategy2_def is_header_def split_ws_def split_ws_once_def
  table_row_def parse_pdf_to_dataframe_def strategy3_def content_chunks_def
  fallback_project_def strategy2_message_def strategy3_message_def

section \<open>Order and duplicates of the reported keywords\<close>

lemma first_index_append_in: "a \<in> set pre \<Longrightarrow> first_index (pre @ xs) a < length pre"
  unfolding first_index_def
  by (induction pre) auto

lemma first_index_append_notin: "a \<notin> set pre \<Longrightarrow> first_index (pre @ a # xs) a = length pre"
  unfolding first_index_def
  by (induction pre) auto

lemma set_fromkeys_acc: "set (fromkeys_acc seen xs) = set seen \<union> set xs"
  by (induction xs arbitrary: seen) auto

lemma distinct_fromkeys_acc: "distinct seen \<Longrightarrow> distinct (fromkeys_acc seen xs)"
  by (induction xs arbitrary: seen) auto

text \<open>
  The invariant of the de-duplication loop: \<open>seen\<close> holds the selected elements of the
  prefix already read, ordered by their first position in the whole list.
\<close>

lemma sorted_fromkeys_acc:
  "set seen = {k \<in> set pre. P k} \<Longrightarrow>
   sorted_wrt (\<lambda>a b. first_index (pre @ xs) a < first_index (pre @ xs) b) seen \<Longrightarrow>
   sorted_wrt (\<lambda>a b. first_index (pre @ xs) a < first_index (pre @ xs) b)
     (fromkeys_acc seen (filter P xs))"
proof (induction xs arbitrary: pre seen)
  case Nil
  then show ?case by simp
next
  case (Cons x xs)
  let ?R = "\<lambda>a b. first_index ((pre @ [x]) @ xs) a < first_index ((pre @ [x]) @ xs) b"
  have sorted: "sorted_wrt ?R seen" using Cons.prems(2) by simp
  show ?case
  proof (cases "P x \<and> x \<notin> set seen")
    case True
    then have notin: "x \<notin> set pre" using Cons.prems(1) by auto
    have "\<forall>a\<in>set seen. ?R a x"
    proof
      fix a assume "a \<in> set seen"
      then have "a \<in> set pre" using Cons.prems(1) by auto
      then have "first_index (pre @ x # xs) a < length pre" by (rule first_index_append_in)
      moreover have "first_index (pre @ x # xs) x = length pre"
        using notin by (rule first_index_append_notin)
      ultimately show "?R a x" by simp
    qed
    then have "sorted_wrt ?R (seen @ [x])" using sorted by (simp add: sorted_wrt_append)
    moreover have "set (seen @ [x]) = {k \<in> set (pre @ [x]). P k}"
      using Cons.prems(1) True by auto
    ultimately have "sorted_wrt ?R (fromkeys_acc (seen @ [x]) (filter P xs))"
      by (rule Cons.IH[rotated])
    then show ?thesis using True by simp
  next
    case False
    then have "set seen = {k \<in> set (pre @ [x]). P k}" using Cons.prems(1) by auto
    then have "sorted_wrt ?R (fromkeys_acc seen (filter P xs))"
      using sorted by (rule Cons.IH)
    then show ?thesis using False by auto
  qed
qed

text \<open>The loop over the compiled patterns selects the keywords whose pattern matches.\<close>

lemma found_keywords_filter:
  "map fst (filter (\<lambda>(kw, pattern). pattern_search U pattern t) (zip kws (compile_patterns kws)))
   = filter (\<lambda>kw. pattern_search U (WordBounded kw) t) kws"
  unfolding compile_patterns_def by (induction kws) auto

lemma find_keywords_in_text_eq:
  "find_keywords_in_text U kws cell =
     (if cell = Some [] then []
      else fromkeys (filter (\<lambda>kw. pattern_search U (WordBounded kw) (normalize_text U cell)) kws))"
  unfolding find_keywords_in_text_def by (simp add: found_keywords_filter Let_def)

lemma dairy_before_cattle:
  "find_keywords_in_text basic_db [lit ''dairy'', lit ''cattle''] (Some (lit ''cattle and dairy''))
   = [lit ''dairy'', lit ''cattle'']"
  by (simp add: eval_defs)

text \<open>
  Claim C5. \<^verbatim>\<open>find_keywords_in_text\<close> is a function of the text and the keyword
  sequence alone (two runs on the same input return the same list), and the list it
  returns has no duplicates, holds exactly the keywords of the sequence whose pattern
  matches the normalised text, and lists them by their first position in the keyword
  sequence. The order is not alphabetical and not the order of occurrence in the text:
  with the keywords \<^verbatim>\<open>["dairy", "cattle"]\<close> the text \<^verbatim>\<open>"cattle and dairy"\<close> gives
  \<^verbatim>\<open>["dairy", "cattle"]\<close>.
\<close>

theorem find_keywords_in_text_order:
  "distinct (find_keywords_in_text U keywords cell) \<and>
   set (find_keywords_in_text U keywords cell) =
     {kw \<in> set keywords. cell \<noteq> Some [] \<and>
        pattern_search U (WordBounded kw) (normalize_text U cell)} \<and>
   sorted_wrt (\<lambda>a b. first_index keywords a < first_index keywords b)
     (find_keywords_in_text U keywords cell) \<and>
   find_keywords_in_text basic_db [lit ''dairy'', lit ''cattle''] (Some (lit ''cattle and dairy''))
     = [lit ''dairy'', lit ''cattle'']"
proof -
  let ?P = "\<lambda>kw. pattern_search U (WordBounded kw) (normalize_text U cell)"
  have d: "distinct (fromkeys (filter ?P keywords))"
    unfolding fromkeys_def by (rule distinct_fromkeys_acc) simp
  have s: "set (fromkeys (filter ?P keywords)) = {kw \<in> set keywords. ?P kw}"
    unfolding fromkeys_def by (auto simp: set_fromkeys_acc)
  have "sorted_wrt (\<lambda>a b. first_index ([] @ keywords) a < first_index ([] @ keywords) b)
          (fromkeys_acc [] (filter ?P keywords))"
    by (rule sorted_fromkeys_acc) simp_all
  then have o: "sorted_wrt (\<lambda>a b. first_index keywords a < first_index keywords b)
          (fromkeys (filter ?P keywords))"
    by (simp add: fromkeys_def)
  show ?thesis
    using d s o dairy_before_cattle by (simp add: find_keywords_in_text_eq)
qed

text \<open>
  The theorem at a keyword sequence with a repeated keyword: \<^verbatim>\<open>sheep\<close> is reported
  once, at its first position.
\<close>

theorem find_keywords_in_text_order_witness:
  "find_keywords_in_text basic_db [lit ''sheep'', lit ''cattle'', lit ''sheep'', lit ''dairy'']
     (Some (lit ''Dairy cattle, sheep and more cattle''))
     = [lit ''sheep'', lit ''cattle'', lit ''dairy''] \<and>
   distinct (find_keywords_in_text basic_db
     [lit ''sheep'', lit ''cattle'', lit ''sheep'', lit ''dairy'']
     (Some (lit ''Dairy cattle, sheep and more cattle''))) \<and>
   sorted_wrt (\<lambda>a b. first_index [lit ''sheep'', lit ''cattle'', lit ''sheep'', lit ''dairy''] a
                     < first_index [lit ''sheep'', lit ''cattle'', lit ''sheep'', lit ''dairy''] b)
     (find_keywords_in_text basic_db
       [lit ''sheep'', lit ''cattle'', lit ''sheep'', lit ''dairy'']
       (Some (lit ''Dairy cattle, sheep and more cattle'')))"
proof -
  have v: "find_keywords_in_text basic_db
     [lit ''sheep'', lit ''cattle'', lit ''sheep'', lit ''dairy'']
     (Some (lit ''Dairy cattle, sheep and more cattle''))
     = [lit ''sheep'', lit ''cattle'', lit ''dairy'']"
    by (simp add: eval_defs)
  show ?thesis
    using find_keywords_in_text_order
      [of basic_db "[lit ''sheep'', lit ''cattle'', lit ''sheep'', lit ''dairy'']"
          "Some (lit ''Dairy cattle, sheep and more cattle'')"] v
    by simp
qed

section \<open>Empty and whitespace-only text\<close>

lemma dropWhile_all: "\<forall>c\<in>set s. P c \<Longrightarrow> dropWhile P s = []"
  by (induction s) auto

lemma strip_whitespace: "\<forall>c\<in>set s. isspace c \<Longrightarrow> strip s = []"
  by (simp add: strip_def dropWhile_all)

lemma split_on_pieces: "\<forall>w\<in>set (split_on sep s). set w \<subseteq> set s"
  by (induction s) (fastforce split: if_splits list.splits)+

lemma lines_of_whitespace:
  assumes "\<forall>c\<in>set pdf_text. isspace c"
  shows "lines_of pdf_text = []"
proof -
  have "strip w = []" if "w \<in> set (split_on 10 pdf_text)" for w
    using split_on_pieces[of 10 pdf_text] that assms by (intro strip_whitespace) auto
  then show ?thesis by (simp add: lines_of_def filter_empty_conv)
qed

lemma strategies_no_lines:
  "strategy1 U [] = []" "strategy2 U [] = []" "strategy3 [] = []"
  by (simp_all add: strategy1_def strategy2_def strategy3_def content_chunks_def)

text \<open>
  Claim C1, as the code has it. For a text that is empty or holds only whitespace the
  extractor finds no line, so all three strategies are tried and yield nothing, and
  the terminal fallback fires: \<^verbatim>\<open>parse_pdf_to_dataframe\<close> returns exactly one project,
  named \<^verbatim>\<open>Full Document Analysis - <file name>\<close>, whose description is the first
  2000 characters of the text. The empty outcome belongs to the caller:
  \<^verbatim>\<open>process_single_pdf\<close> tests \<^verbatim>\<open>pdf_text.strip()\<close> and returns before it calls the
  extractor.
\<close>

theorem whitespace_text_fallback:
  assumes "\<forall>c\<in>set pdf_text. isspace c"
  shows "parse_pdf_to_dataframe U pdf_text pdf_filename =
           ([\<lparr>project_name = lit ''Full Document Analysis - '' @ pdf_filename,
              project_description = Some (take 2000 pdf_text)\<rparr>],
            [strategy2_message pdf_filename, strategy3_message pdf_filename]) \<and>
         process_single_pdf U keywords pdf_text pdf_filename = None"
  using assms
  by (simp add: parse_pdf_to_dataframe_def lines_of_whitespace strategies_no_lines
      fallback_project_def process_single_pdf_def strip_whitespace)

text \<open>The theorem at a text of a space, a tab, a newline, a no-break space and a space.\<close>

theorem whitespace_text_fallback_witness:
  "parse_pdf_to_dataframe basic_db [32, 9, 10, 160, 32] (lit ''scan.pdf'') =
     ([\<lparr>project_name = lit ''Full Document Analysis - scan.pdf'',
        project_description = Some [32, 9, 10, 160, 32]\<rparr>],
      [strategy2_message (lit ''scan.pdf''), strategy3_message (lit ''scan.pdf'')]) \<and>
   process_single_pdf basic_db [lit ''cattle''] [32, 9, 10, 160, 32] (lit ''scan.pdf'') = None"
proof -
  have h: "\<forall>c\<in>set [32, 9, 10, 160, 32]. isspace c" by (simp add: isspace_def)
  show ?thesis
    using whitespace_text_fallback [OF h, of basic_db "lit ''scan.pdf''" "[lit ''cattle'']"]
    by (simp add: lit_def)
qed

text \<open>
  Claim C1 as stated fails at the empty text: the extractor returns one project, not
  an empty sequence.
\<close>

theorem empty_text_one_record:
  "fst (parse_pdf_to_dataframe basic_db [] (lit ''scan.pdf'')) =
     [\<lparr>project_name = lit ''Full Document Analysis - scan.pdf'', project_description = Some []\<rparr>]"
  by (simp add: parse_pdf_to_dataframe_def lines_of_def strategies_no_lines fallback_project_def
      strip_def lit_def)

section \<open>The order of the strategies\<close>

lemma messages_differ: "strategy2_message f \<noteq> strategy3_message f"
  by (simp add: strategy2_message_def strategy3_message_def lit_def)

text \<open>
  Claim C2. When Strategy 1 yields a project, the result is what Strategy 1 found and
  nothing is printed: Strategies 2 and 3 are not started and add no project. The
  message that announces Strategy 2 is printed exactly when Strategy 1 found nothing,
  and the message that announces Strategy 3 exactly when Strategies 1 and 2 both found
  nothing; where Strategy 2 is the first to find projects, they are the result.
\<close>

theorem strategy_precedence:
  "(strategy1 U (lines_of t) \<noteq> [] \<longrightarrow>
      parse_pdf_to_dataframe U t f = (strategy1 U (lines_of t), [])) \<and>
   (strategy2_message f \<in> set (snd (parse_pdf_to_dataframe U t f)) \<longleftrightarrow>
      strategy1 U (lines_of t) = []) \<and>
   (strategy3_message f \<in> set (snd (parse_pdf_to_dataframe U t f)) \<longleftrightarrow>
      strategy1 U (lines_of t) = [] \<and> strategy2 U (lines_of t) = []) \<and>
   (strategy1 U (lines_of t) = [] \<and> strategy2 U (lines_of t) \<noteq> [] \<longrightarrow>
      parse_pdf_to_dataframe U t f = (strategy2 U (lines_of t), [strategy2_message f]))"
  using messages_differ[of f] messages_differ[of f, symmetric]
  by (simp add: parse_pdf_to_dataframe_def Let_def)

text \<open>
  A text with labels and with a table header: Strategy 2 would find two rows in it.
\<close>

lemma labelled_table_lines:
  "lines_of (lit ''Project Name  Title'' @ [10] @ lit ''Project: A'' @ [10] @ lit ''Description: d'')
   = [lit ''Project Name  Title'', lit ''Project: A'', lit ''Description: d'']"
  by (simp add: lines_of_def lit_def strip_def isspace_def)

lemma labelled_table_strategy1:
  "strategy1 basic_db [lit ''Project Name  Title'', lit ''Project: A'', lit ''Description: d'']
   = [\<lparr>project_name = lit ''A'', project_description = Some (lit ''d'')\<rparr>]"
  by (simp add: extract_defs eval_defs)

lemma labelled_table_strategy2:
  "strategy2 basic_db [lit ''Project Name  Title'', lit ''Project: A'', lit ''Description: d'']
   = [\<lparr>project_name = lit ''Project:'', project_description = Some (lit ''A'')\<rparr>,
      \<lparr>project_name = lit ''Description:'', project_description = Some (lit ''d'')\<rparr>]"
  by (simp add: extract_defs eval_defs)

text \<open>The theorem at that text: the labelled project is the result and nothing is printed.\<close>

theorem strategy_precedence_witness:
  "strategy1 basic_db
     (lines_of (lit ''Project Name  Title'' @ [10] @ lit ''Project: A'' @ [10] @ lit ''Description: d''))
     = [\<lparr>project_name = lit ''A'', project_description = Some (lit ''d'')\<rparr>] \<and>
   strategy2 basic_db
     (lines_of (lit ''Project Name  Title'' @ [10] @ lit ''Project: A'' @ [10] @ lit ''Description: d''))
     = [\<lparr>project_name = lit ''Project:'', project_description = Some (lit ''A'')\<rparr>,
        \<lparr>project_name = lit ''Description:'', project_description = Some (lit ''d'')\<rparr>] \<and>
   parse_pdf_to_dataframe basic_db
     (lit ''Project Name  Title'' @ [10] @ lit ''Project: A'' @ [10] @ lit ''Description: d'')
     (lit ''a.pdf'')
     = ([\<lparr>project_name = lit ''A'', project_description = Some (lit ''d'')\<rparr>], [])"
  using strategy_precedence
    [of basic_db "lit ''Project Name  Title'' @ [10] @ lit ''Project: A'' @ [10] @ lit ''Description: d''"
        "lit ''a.pdf''"]
  by (simp only: labelled_table_lines labelled_table_strategy1 labelled_table_strategy2) simp

section \<open>A description before any project name\<close>

lemma strategy1_loop_skip:
  "\<not> list_ex (any_pattern_in U name_patterns) pre \<Longrightarrow>
   strategy1_loop U projects None (pre @ rest) = strategy1_loop U projects None rest"
  by (induction pre) auto

text \<open>
  Claim C10. In Strategy 1 a line with a description label that is read while no
  project is open (no line before it holds a name label) leaves the state of the loop
  unchanged: the projects found are the same as without the line, and the same as for
  the lines after it alone, so no project is created for it and none takes its text.
\<close>

theorem description_before_name_discarded:
  assumes "\<not> list_ex (any_pattern_in U name_patterns) pre"
    and "any_pattern_in U description_patterns line"
    and "\<not> any_pattern_in U name_patterns line"
  shows "strategy1_loop U projects None (line # rest) = strategy1_loop U projects None rest \<and>
         strategy1 U (pre @ line # rest) = strategy1 U (pre @ rest) \<and>
         strategy1 U (pre @ line # rest) = strategy1 U rest"
  using assms by (simp add: strategy1_def strategy1_loop_skip)

text \<open>
  The theorem at the lines \<^verbatim>\<open>Preface\<close>, \<^verbatim>\<open>Summary: orphan text\<close>, \<^verbatim>\<open>more\<close>,
  \<^verbatim>\<open>Title: A\<close>: one project \<^verbatim>\<open>A\<close> without a description.
\<close>

theorem description_before_name_discarded_witness:
  "\<not> list_ex (any_pattern_in basic_db name_patterns) [lit ''Preface''] \<and>
   any_pattern_in basic_db description_patterns (lit ''Summary: orphan text'') \<and>
   \<not> any_pattern_in basic_db name_patterns (lit ''Summary: orphan text'') \<and>
   strategy1 basic_db [lit ''Preface'', lit ''Summary: orphan text'', lit ''more'', lit ''Title: A'']
     = [\<lparr>project_name = lit ''A'', project_description = None\<rparr>] \<and>
   strategy1 basic_db [lit ''more'', lit ''Title: A'']
     = [\<lparr>project_name = lit ''A'', project_description = None\<rparr>]"
proof -
  have h1: "\<not> list_ex (any_pattern_in basic_db name_patterns) [lit ''Preface'']"
    by (simp add: extract_defs eval_defs)
  have h2: "any_pattern_in basic_db description_patterns (lit ''Summary: orphan text'')"
    by (simp add: extract_defs eval_defs)
  have h3: "\<not> any_pattern_in basic_db name_patterns (lit ''Summary: orphan text'')"
    by (simp add: extract_defs eval_defs)
  have v: "strategy1 basic_db [lit ''more'', lit ''Title: A'']
     = [\<lparr>project_name = lit ''A'', project_description = None\<rparr>]"
    by (simp add: extract_defs eval_defs)
  have "strategy1 basic_db ([lit ''Preface''] @ lit ''Summary: orphan text'' # [lit ''more'', lit ''Title: A''])
     = strategy1 basic_db [lit ''more'', lit ''Title: A'']"
    using description_before_name_discarded [OF h1 h2 h3] by blast
  then have "strategy1 basic_db
     [lit ''Preface'', lit ''Summary: orphan text'', lit ''more'', lit ''Title: A'']
     = [\<lparr>project_name = lit ''A'', project_description = None\<rparr>]"
    using v by simp
  then show ?thesis using h1 h2 h3 v by blast
qed

section \<open>The thresholds of Strategy 3\<close>













section \<open>Conformant tables agree on ASCII text\<close>

text \<open>
  On ASCII input every table that is right about ASCII gives the results of the small
  table \<open>basic_db\<close>, so the model can be run there.
\<close>

lemma ascii_conformant_basic_db: "ascii_conformant basic_db"
  by (auto simp: ascii_conformant_def basic_db_def)

lemma insert_mark_starter: "ucd_ccc U c = 0 \<Longrightarrow> insert_mark U c acc = c # acc"
  by (cases acc) auto

lemma foldl_insert_mark_starters:
  "\<forall>c\<in>set s. ucd_ccc U c = 0 \<Longrightarrow> foldl (\<lambda>acc c. insert_mark U c acc) acc s = rev s @ acc"
  by (induction s arbitrary: acc) (auto simp: insert_mark_starter)

lemma nfkd_ascii:
  assumes "ascii_conformant U" and "is_ascii s"
  shows "nfkd U s = s"
proof -
  have lt: "\<forall>c\<in>set s. c < 128" using assms(2) by (simp add: is_ascii_def list_all_iff)
  then have d: "\<forall>c\<in>set s. ucd_decomp U c = [c]" and z: "\<forall>c\<in>set s. ucd_ccc U c = 0"
    using assms(1) by (auto simp: ascii_conformant_def)
  have "concat (map (ucd_decomp U) s) = s" using d by (induction s) auto
  then show ?thesis
    using z by (simp add: nfkd_def canonical_order_def foldl_insert_mark_starters)
qed

lemma replace_absent: "a \<notin> set s \<Longrightarrow> replace a b s = s"
  by (induction s) (auto simp: replace_def)

lemma normalize_text_ascii:
  assumes "ascii_conformant U" and "is_ascii s"
  shows "normalize_text U (Some s) = strip (collapse_spaces s)"
proof -
  have "\<forall>c\<in>set s. c < 128" using assms(2) by (simp add: is_ascii_def list_all_iff)
  then have "160 \<notin> set s" "8199 \<notin> set s" "8201 \<notin> set s" "8202 \<notin> set s" by auto
  then show ?thesis
    by (simp add: normalize_text_def nfkd_ascii[OF assms] replace_absent)
qed

lemma is_ascii_collapse_spaces: "is_ascii s \<Longrightarrow> is_ascii (collapse_spaces s)"
proof (induction s rule: collapse_spaces.induct)
  case 1
  then show ?case by simp
next
  case (2 c cs)
  have "is_ascii (dropWhile isspace cs)"
    using "2.prems" set_dropWhileD[of _ isspace cs] by (auto simp: is_ascii_def list_all_iff)
  then show ?case using 2 by (auto simp: is_ascii_def)
qed

lemma is_ascii_strip: "is_ascii s \<Longrightarrow> is_ascii (strip s)"
  unfolding is_ascii_def strip_def list_all_iff
  by (auto dest!: set_dropWhileD)

lemma word_char_ascii:
  assumes "ascii_conformant U" and "case p of None \<Rightarrow> True | Some c \<Rightarrow> c < 128"
  shows "word_char U p = word_char basic_db p"
  using assms by (cases p) (auto simp: word_char_def ascii_conformant_def basic_db_def)

lemma head_opt_ascii: "is_ascii s \<Longrightarrow> (case head_opt s of None \<Rightarrow> True | Some c \<Rightarrow> c < 128)"
  by (cases s) (auto simp: head_opt_def is_ascii_def)

lemma word_boundary_ascii:
  assumes "ascii_conformant U" and "case p of None \<Rightarrow> True | Some c \<Rightarrow> c < 128" and "is_ascii s"
  shows "word_boundary U p (head_opt s) = word_boundary basic_db p (head_opt s)"
  using word_char_ascii[OF assms(1,2)] word_char_ascii[OF assms(1) head_opt_ascii[OF assms(3)]]
  by (simp add: word_boundary_def)

lemma match_literal_ascii:
  assumes "ascii_conformant U"
  shows "is_ascii kw \<Longrightarrow> is_ascii s \<Longrightarrow> (case p of None \<Rightarrow> True | Some c \<Rightarrow> c < 128) \<Longrightarrow>
         match_literal U kw p s = match_literal basic_db kw p s"
proof (induction kw arbitrary: p s)
  case Nil
  then show ?case using word_boundary_ascii[OF assms] by simp
next
  case (Cons k ks)
  show ?case
  proof (cases s)
    case Nil
    then show ?thesis by simp
  next
    case (Cons c cs)
    have "re_ieq U k c = re_ieq basic_db k c"
      using assms Cons.prems Cons by (auto simp: ascii_conformant_def basic_db_def is_ascii_def)
    moreover have "match_literal U ks (Some c) cs = match_literal basic_db ks (Some c) cs"
      using Cons.prems Cons by (intro Cons.IH) (auto simp: is_ascii_def)
    ultimately show ?thesis using Cons by simp
  qed
qed

lemma search_from_ascii:
  assumes "ascii_conformant U" and "is_ascii kw"
  shows "is_ascii s \<Longrightarrow> (case p of None \<Rightarrow> True | Some c \<Rightarrow> c < 128) \<Longrightarrow>
         search_from U kw p s = search_from basic_db kw p s"
proof (induction s arbitrary: p)
  case Nil
  then show ?case
    using match_literal_ascii[OF assms, of "[]" p] word_boundary_ascii[OF assms(1), of p "[]"]
    by (simp add: match_at_def)
next
  case (Cons c cs)
  have "match_at U kw p (c # cs) = match_at basic_db kw p (c # cs)"
    using match_literal_ascii[OF assms, of "c # cs" p]
      word_boundary_ascii[OF assms(1), of p "c # cs"] Cons.prems
    by (simp add: match_at_def)
  moreover have "search_from U kw (Some c) cs = search_from basic_db kw (Some c) cs"
    using Cons.prems by (intro Cons.IH) (auto simp: is_ascii_def)
  ultimately show ?case by simp
qed

lemma find_keywords_in_text_ascii:
  assumes "ascii_conformant U" and "list_all is_ascii kws" and "is_ascii s"
  shows "find_keywords_in_text U kws (Some s) = find_keywords_in_text basic_db kws (Some s)"
proof -
  have n: "normalize_text U (Some s) = normalize_text basic_db (Some s)"
    using normalize_text_ascii[OF assms(1,3)]
      normalize_text_ascii[OF ascii_conformant_basic_db assms(3)] by simp
  have a: "is_ascii (normalize_text basic_db (Some s))"
    using normalize_text_ascii[OF ascii_conformant_basic_db assms(3)] assms(3)
    by (simp add: is_ascii_strip is_ascii_collapse_spaces)
  have "filter (\<lambda>kw. pattern_search U (WordBounded kw) (normalize_text basic_db (Some s))) kws
        = filter (\<lambda>kw. pattern_search basic_db (WordBounded kw) (normalize_text basic_db (Some s))) kws"
    using assms(2) search_from_ascii[OF assms(1) _ a, of _ None]
    by (intro filter_cong) (auto simp: list_all_iff)
  then show ?thesis by (simp add: find_keywords_in_text_eq n)
qed

lemma any_pattern_in_ascii:
  assumes "ascii_conformant U" and "is_ascii line"
  shows "any_pattern_in U patterns line = any_pattern_in basic_db patterns line"
  using assms by (simp add: any_pattern_in_def ascii_conformant_def basic_db_def is_ascii_def)

lemma continuation_ascii:
  assumes "ascii_conformant U"
  shows "list_all is_ascii ls \<Longrightarrow> continuation U desc ls = continuation basic_db desc ls"
  using any_pattern_in_ascii[OF assms]
  by (induction ls arbitrary: desc) auto

lemma strategy1_loop_ascii:
  assumes "ascii_conformant U"
  shows "list_all is_ascii ls \<Longrightarrow>
         strategy1_loop U projects current ls = strategy1_loop basic_db projects current ls"
  using any_pattern_in_ascii[OF assms] continuation_ascii[OF assms]
  by (induction ls arbitrary: projects current) (auto split: option.splits)

lemma strategy1_ascii:
  assumes "ascii_conformant U" and "list_all is_ascii ls"
  shows "strategy1 U ls = strategy1 basic_db ls"
  by (simp add: strategy1_def strategy1_loop_ascii[OF assms])

section \<open>End-to-end scenario A\<close>

lemma is_ascii_lit_eval: "is_ascii (lit ''Project: Dairy Farm'')"
  "is_ascii (lit ''Description: Improving cattle health.'')"
  "is_ascii (lit ''Dairy Farm'')" "is_ascii (lit ''Improving cattle health.'')"
  "is_ascii (lit ''dairy'')" "is_ascii (lit ''cattle'')"
  by (simp_all add: is_ascii_def lit_def)

lemma scenario_A_lines:
  "lines_of (lit ''Project: Dairy Farm'' @ [10] @ lit ''Description: Improving cattle health.'')
   = [lit ''Project: Dairy Farm'', lit ''Description: Improving cattle health.'']"
  by (simp add: lines_of_def lit_def strip_def isspace_def)

lemma scenario_A_strategy1:
  "strategy1 basic_db [lit ''Project: Dairy Farm'', lit ''Description: Improving cattle health.'']
   = [\<lparr>project_name = lit ''Dairy Farm'',
       project_description = Some (lit ''Improving cattle health.'')\<rparr>]"
  by (simp add: extract_defs eval_defs)

lemma scenario_A_name:
  "find_keywords_in_text basic_db [lit ''dairy'', lit ''cattle''] (Some (lit ''Dairy Farm''))
   = [lit ''dairy'']"
  by (simp add: eval_defs)

lemma scenario_A_description:
  "find_keywords_in_text basic_db [lit ''dairy'', lit ''cattle'']
     (Some (lit ''Improving cattle health.'')) = [lit ''cattle'']"
  by (simp add: eval_defs)

text \<open>
  Claim C9. With the keyword sequence \<^verbatim>\<open>["dairy", "cattle"]\<close> and the document whose
  lines are \<^verbatim>\<open>Project: Dairy Farm\<close> and \<^verbatim>\<open>Description: Improving cattle health.\<close>,
  extraction gives exactly one project, named \<^verbatim>\<open>Dairy Farm\<close> and described as
  \<^verbatim>\<open>Improving cattle health.\<close>, found by Strategy 1 with nothing printed; enrichment
  finds exactly \<^verbatim>\<open>["dairy"]\<close> in the name and exactly \<^verbatim>\<open>["cattle"]\<close> in the
  description, and \<^verbatim>\<open>process_dataframe\<close> writes \<^verbatim>\<open>dairy\<close> and \<^verbatim>\<open>cattle\<close> into the two
  keyword columns. This holds for every Unicode table that is right about ASCII.
\<close>

theorem scenario_A:
  assumes "ascii_conformant U"
  shows "lines_of (lit ''Project: Dairy Farm'' @ [10] @ lit ''Description: Improving cattle health.'')
           = [lit ''Project: Dairy Farm'', lit ''Description: Improving cattle health.''] \<and>
         parse_pdf_to_dataframe U
           (lit ''Project: Dairy Farm'' @ [10] @ lit ''Description: Improving cattle health.'')
           pdf_filename
           = ([\<lparr>project_name = lit ''Dairy Farm'',
                project_description = Some (lit ''Improving cattle health.'')\<rparr>], []) \<and>
         find_keywords_in_text U [lit ''dairy'', lit ''cattle''] (Some (lit ''Dairy Farm''))
           = [lit ''dairy''] \<and>
         find_keywords_in_text U [lit ''dairy'', lit ''cattle'']
           (Some (lit ''Improving cattle health.'')) = [lit ''cattle''] \<and>
         process_dataframe U [lit ''dairy'', lit ''cattle'']
           (fst (parse_pdf_to_dataframe U
              (lit ''Project: Dairy Farm'' @ [10] @ lit ''Description: Improving cattle health.'')
              pdf_filename))
           = Processed
               [\<lparr>project_name = lit ''Dairy Farm'',
                 project_description = Some (lit ''Improving cattle health.''),
                 keywords_in_name = lit ''dairy'',
                 keywords_in_description = lit ''cattle''\<rparr>]"
proof -
  let ?text = "lit ''Project: Dairy Farm'' @ [10] @ lit ''Description: Improving cattle health.''"
  let ?kws = "[lit ''dairy'', lit ''cattle'']"
  let ?p = "\<lparr>project_name = lit ''Dairy Farm'',
              project_description = Some (lit ''Improving cattle health.'')\<rparr>"
  have s1: "strategy1 U (lines_of ?text) = [?p]"
    using strategy1_ascii[OF assms, of "lines_of ?text"]
    by (simp only: scenario_A_lines scenario_A_strategy1) (simp add: is_ascii_lit_eval)
  have parse: "parse_pdf_to_dataframe U ?text pdf_filename = ([?p], [])"
    using s1 by (simp add: parse_pdf_to_dataframe_def Let_def)
  have kn: "find_keywords_in_text U ?kws (Some (lit ''Dairy Farm'')) = [lit ''dairy'']"
    using find_keywords_in_text_ascii[OF assms, of ?kws "lit ''Dairy Farm''"]
    by (simp only: scenario_A_name) (simp add: is_ascii_lit_eval)
  have kd: "find_keywords_in_text U ?kws (Some (lit ''Improving cattle health.'')) = [lit ''cattle'']"
    using find_keywords_in_text_ascii[OF assms, of ?kws "lit ''Improving cattle health.''"]
    by (simp only: scenario_A_description) (simp add: is_ascii_lit_eval)
  have "process_dataframe U ?kws [?p]
          = Processed [\<lparr>project_name = lit ''Dairy Farm'',
                 project_description = Some (lit ''Improving cattle health.''),
                 keywords_in_name = lit ''dairy'',
                 keywords_in_description = lit ''cattle''\<rparr>]"
    by (simp add: process_dataframe_def kn kd keyword_cell_def)
  then show ?thesis using parse kn kd scenario_A_lines by simp
qed

text \<open>The theorem at the table \<open>basic_db\<close> and the file name \<^verbatim>\<open>report.pdf\<close>.\<close>

theorem scenario_A_witness:
  "ascii_conformant basic_db \<and>
   parse_pdf_to_dataframe basic_db
     (lit ''Project: Dairy Farm'' @ [10] @ lit ''Description: Improving cattle health.'')
     (lit ''report.pdf'')
     = ([\<lparr>project_name = lit ''Dairy Farm'',
          project_description = Some (lit ''Improving cattle health.'')\<rparr>], []) \<and>
   process_dataframe basic_db [lit ''dairy'', lit ''cattle'']
     (fst (parse_pdf_to_dataframe basic_db
        (lit ''Project: Dairy Farm'' @ [10] @ lit ''Description: Improving cattle health.'')
        (lit ''report.pdf'')))
     = Processed
         [\<lparr>project_name = lit ''Dairy Farm'',
           project_description = Some (lit ''Improving cattle health.''),
           keywords_in_name = lit ''dairy'',
           keywords_in_description = lit ''cattle''\<rparr>]"
  using scenario_A [OF ascii_conformant_basic_db, of "lit ''report.pdf''"]
    ascii_conformant_basic_db
  by blast

section \<open>Whole-word matching\<close>

text \<open>What the literal and the closing boundary accept, as a split of the text.\<close>

lemma match_literal_iff:
  "match_literal U kw p s \<longleftrightarrow>
     (\<exists>mid post. s = mid @ post \<and> list_all2 (re_ieq U) kw mid \<and>
        word_boundary U (if mid = [] then p else Some (last mid)) (head_opt post))"
proof (induction kw arbitrary: p s)
  case Nil
  then show ?case by simp
next
  case (Cons k ks)
  show ?case
  proof (cases s)
    case Nil
    then show ?thesis by (simp add: list_all2_Cons1)
  next
    case (Cons c cs)
    have "match_literal U (k # ks) p (c # cs) \<longleftrightarrow>
            re_ieq U k c \<and> (\<exists>mid post. cs = mid @ post \<and> list_all2 (re_ieq U) ks mid \<and>
               word_boundary U (if mid = [] then Some c else Some (last mid)) (head_opt post))"
      using Cons.IH[of "Some c" cs] by simp
    also have "\<dots> \<longleftrightarrow>
       (\<exists>mid post. c # cs = mid @ post \<and> list_all2 (re_ieq U) (k # ks) mid \<and>
          word_boundary U (if mid = [] then p else Some (last mid)) (head_opt post))"
      (is "?L \<longleftrightarrow> ?R")
    proof
      assume ?L
      then obtain mid post where m: "re_ieq U k c" "cs = mid @ post" "list_all2 (re_ieq U) ks mid"
        "word_boundary U (if mid = [] then Some c else Some (last mid)) (head_opt post)"
        by blast
      have "c # cs = (c # mid) @ post" using m(2) by simp
      moreover have "list_all2 (re_ieq U) (k # ks) (c # mid)" using m(1,3) by simp
      moreover have "word_boundary U (if c # mid = [] then p else Some (last (c # mid))) (head_opt post)"
        using m(4) by (cases "mid = []") simp_all
      ultimately show ?R by blast
    next
      assume ?R
      then obtain mid post where m: "c # cs = mid @ post" "list_all2 (re_ieq U) (k # ks) mid"
        "word_boundary U (if mid = [] then p else Some (last mid)) (head_opt post)"
        by blast
      from m(2) obtain c' mid' where mid: "mid = c' # mid'" "re_ieq U k c'" "list_all2 (re_ieq U) ks mid'"
        by (auto simp: list_all2_Cons1)
      have "c' = c" "cs = mid' @ post" using m(1) mid(1) by simp_all
      moreover have "word_boundary U (if mid' = [] then Some c else Some (last mid')) (head_opt post)"
        using m(3) mid(1) \<open>c' = c\<close> by (cases "mid' = []") simp_all
      ultimately show ?L using mid(2,3) by blast
    qed
    finally show ?thesis using Cons by simp
  qed
qed

lemma search_from_iff:
  "search_from U kw p s \<longleftrightarrow>
     (\<exists>pre rest. s = pre @ rest \<and> match_at U kw (if pre = [] then p else Some (last pre)) rest)"
proof (induction s arbitrary: p)
  case Nil
  then show ?case by simp
next
  case (Cons c cs)
  have "search_from U kw p (c # cs) \<longleftrightarrow>
          match_at U kw p (c # cs) \<or>
          (\<exists>pre rest. cs = pre @ rest \<and> match_at U kw (if pre = [] then Some c else Some (last pre)) rest)"
    using Cons.IH[of "Some c"] by simp
  also have "\<dots> \<longleftrightarrow>
     (\<exists>pre rest. c # cs = pre @ rest \<and> match_at U kw (if pre = [] then p else Some (last pre)) rest)"
    (is "?L \<longleftrightarrow> ?R")
  proof
    assume ?L
    then show ?R
    proof
      assume "match_at U kw p (c # cs)"
      then have "c # cs = [] @ (c # cs) \<and> match_at U kw (if [] = ([]::ustr) then p else Some (last [])) (c # cs)"
        by simp
      then show ?R by blast
    next
      assume "\<exists>pre rest. cs = pre @ rest \<and> match_at U kw (if pre = [] then Some c else Some (last pre)) rest"
      then obtain pre rest where m: "cs = pre @ rest"
        "match_at U kw (if pre = [] then Some c else Some (last pre)) rest" by blast
      have "c # cs = (c # pre) @ rest \<and>
            match_at U kw (if c # pre = [] then p else Some (last (c # pre))) rest"
        using m by (cases "pre = []") simp_all
      then show ?R by blast
    qed
  next
    assume ?R
    then obtain pre rest where m: "c # cs = pre @ rest"
      "match_at U kw (if pre = [] then p else Some (last pre)) rest" by blast
    show ?L
    proof (cases pre)
      case Nil
      then show ?thesis using m by simp
    next
      case (Cons c' pre')
      then have "cs = pre' @ rest" "c' = c" using m(1) by simp_all
      moreover have "match_at U kw (if pre' = [] then Some c else Some (last pre')) rest"
        using m(2) Cons \<open>c' = c\<close> by (cases "pre' = []") simp_all
      ultimately show ?thesis by blast
    qed
  qed
  finally show ?case .
qed

lemma list_all2_ends:
  assumes "list_all2 P xs ys" and "xs \<noteq> []"
  shows "ys \<noteq> [] \<and> P (hd xs) (hd ys) \<and> P (last xs) (last ys)"
  using assms
proof (induction rule: list_all2_induct)
  case Nil
  then show ?case by simp
next
  case (Cons x xs y ys)
  then show ?case by (cases "xs = []") auto
qed

lemma pattern_search_word_edged:
  assumes "word_edged U kw"
  shows "pattern_search U (WordBounded kw) text \<longleftrightarrow> flanked_occurrence U kw text"
proof
  assume "pattern_search U (WordBounded kw) text"
  then obtain pre rest where s: "text = pre @ rest"
    "match_at U kw (if pre = [] then None else Some (last pre)) rest"
    by (auto simp: search_from_iff)
  let ?p = "if pre = [] then None else Some (last pre)"
  from s(2) obtain mid post where m: "rest = mid @ post" "list_all2 (re_ieq U) kw mid"
    "word_boundary U (if mid = [] then ?p else Some (last mid)) (head_opt post)"
    and b: "word_boundary U ?p (head_opt rest)"
    unfolding match_at_def match_literal_iff by blast
  have kw: "kw \<noteq> []" using assms by (simp add: word_edged_def)
  from list_all2_ends[OF m(2) kw] have mid: "mid \<noteq> []" "re_word U (hd mid)" "re_word U (last mid)"
    using assms by (auto simp: word_edged_def)
  have "head_opt rest = Some (hd mid)" using m(1) mid(1) by (cases mid) (auto simp: head_opt_def)
  then have l: "pre = [] \<or> \<not> re_word U (last pre)"
    using b mid(2) by (auto simp: word_boundary_def word_char_def split: if_splits)
  have r: "post = [] \<or> \<not> re_word U (hd post)"
    using m(3) mid(1,3) by (cases post) (auto simp: word_boundary_def word_char_def head_opt_def)
  show "flanked_occurrence U kw text"
    unfolding flanked_occurrence_def using s(1) m(1,2) l r by blast
next
  assume "flanked_occurrence U kw text"
  then obtain pre mid post where f: "text = pre @ mid @ post" "list_all2 (re_ieq U) kw mid"
    "pre = [] \<or> \<not> re_word U (last pre)" "post = [] \<or> \<not> re_word U (hd post)"
    unfolding flanked_occurrence_def by blast
  let ?p = "if pre = [] then None else Some (last pre)"
  have kw: "kw \<noteq> []" using assms by (simp add: word_edged_def)
  from list_all2_ends[OF f(2) kw] have mid: "mid \<noteq> []" "re_word U (hd mid)" "re_word U (last mid)"
    using assms by (auto simp: word_edged_def)
  have "head_opt (mid @ post) = Some (hd mid)" using mid(1) by (cases mid) (auto simp: head_opt_def)
  then have b: "word_boundary U ?p (head_opt (mid @ post))"
    using f(3) mid(2) by (auto simp: word_boundary_def word_char_def)
  have e: "word_boundary U (if mid = [] then ?p else Some (last mid)) (head_opt post)"
    using f(4) mid(1,3) by (cases post) (auto simp: word_boundary_def word_char_def head_opt_def)
  have "match_literal U kw ?p (mid @ post)"
    unfolding match_literal_iff using f(2) e by blast
  then have "match_at U kw ?p (mid @ post)" using b by (simp add: match_at_def)
  then have "search_from U kw None text"
    unfolding search_from_iff using f(1) by blast
  then show "pattern_search U (WordBounded kw) text" by simp
qed

lemma normalize_text_empty: "normalize_text U (Some []) = []"
  by (simp add: normalize_text_def nfkd_def canonical_order_def replace_def strip_def)

lemma flanked_occurrence_nonempty: "word_edged U kw \<Longrightarrow> \<not> flanked_occurrence U kw []"
  by (auto simp: flanked_occurrence_def word_edged_def)

lemma cattle_examples:
  "find_keywords_in_text basic_db [lit ''cattle''] (Some (lit ''Cattle farming'')) = [lit ''cattle'']"
  "find_keywords_in_text basic_db [lit ''cattle''] (Some (lit ''cattle.'')) = [lit ''cattle'']"
  "find_keywords_in_text basic_db [lit ''cattle''] (Some (lit ''cattleship'')) = []"
  "find_keywords_in_text basic_db [lit ''cattle''] (Some (lit ''wildcattle'')) = []"
  by (simp_all add: eval_defs)

lemma cattle_examples_ascii:
  "is_ascii (lit ''cattle'')" "is_ascii (lit ''Cattle farming'')" "is_ascii (lit ''cattle.'')"
  "is_ascii (lit ''cattleship'')" "is_ascii (lit ''wildcattle'')"
  by (simp_all add: is_ascii_def lit_def)

text \<open>
  Claim C3, as the code has it. Matching is case-insensitive and on the normalised
  text. For a keyword that begins and ends with a word character, the keyword is
  reported exactly when it occurs in the normalised text with no word character next
  to it (a non-word character or the end of the text on each side). In particular
  \<^verbatim>\<open>cattle\<close> matches \<^verbatim>\<open>Cattle farming\<close> and \<^verbatim>\<open>cattle.\<close> and matches neither
  \<^verbatim>\<open>cattleship\<close> nor \<^verbatim>\<open>wildcattle\<close>. (The pattern asks for \<^verbatim>\<open>\b\<close> on both sides
  of the keyword, and \<^verbatim>\<open>\b\<close> needs a word character on exactly one side: for a
  keyword with a non-word character at an end the two readings differ.)
\<close>

theorem keyword_match_whole_word:
  assumes "ascii_conformant U"
  shows "(kw \<in> set keywords \<and> word_edged U kw \<longrightarrow>
            (kw \<in> set (find_keywords_in_text U keywords (Some text)) \<longleftrightarrow>
             flanked_occurrence U kw (normalize_text U (Some text)))) \<and>
         find_keywords_in_text U [lit ''cattle''] (Some (lit ''Cattle farming'')) = [lit ''cattle''] \<and>
         find_keywords_in_text U [lit ''cattle''] (Some (lit ''cattle.'')) = [lit ''cattle''] \<and>
         find_keywords_in_text U [lit ''cattle''] (Some (lit ''cattleship'')) = [] \<and>
         find_keywords_in_text U [lit ''cattle''] (Some (lit ''wildcattle'')) = []"
proof -
  have general: "kw \<in> set (find_keywords_in_text U keywords (Some text)) \<longleftrightarrow>
                 flanked_occurrence U kw (normalize_text U (Some text))"
    if "kw \<in> set keywords" and edged: "word_edged U kw"
  proof (cases "text = []")
    case True
    then show ?thesis
      using flanked_occurrence_nonempty[OF edged]
      by (simp add: find_keywords_in_text_eq normalize_text_empty)
  next
    case False
    then have "kw \<in> set (find_keywords_in_text U keywords (Some text)) \<longleftrightarrow>
               pattern_search U (WordBounded kw) (normalize_text U (Some text))"
      using that(1) by (simp add: find_keywords_in_text_eq fromkeys_def set_fromkeys_acc)
    then show ?thesis using pattern_search_word_edged[OF edged] by simp
  qed
  have ex: "find_keywords_in_text U [lit ''cattle''] (Some (lit t))
            = find_keywords_in_text basic_db [lit ''cattle''] (Some (lit t))"
    if "is_ascii (lit t)" for t
    using find_keywords_in_text_ascii[OF assms, of "[lit ''cattle'']" "lit t"] that
    by (simp add: cattle_examples_ascii)
  show ?thesis
    using general ex[of "''Cattle farming''"] ex[of "''cattle.''"] ex[of "''cattleship''"]
      ex[of "''wildcattle''"]
    by (simp only: cattle_examples cattle_examples_ascii) blast
qed

lemma word_edged_cattle: "word_edged basic_db (lit ''cattle'')"
  by (auto simp: word_edged_def basic_db_def lit_def ascii_lower_def ascii_word_def split: if_splits)

text \<open>The theorem at \<open>basic_db\<close>, the keyword \<^verbatim>\<open>cattle\<close> and the text \<^verbatim>\<open>Cattle farming\<close>.\<close>

theorem keyword_match_whole_word_witness:
  "ascii_conformant basic_db \<and> word_edged basic_db (lit ''cattle'') \<and>
   find_keywords_in_text basic_db [lit ''dairy'', lit ''cattle''] (Some (lit ''Cattle farming''))
     = [lit ''cattle''] \<and>
   flanked_occurrence basic_db (lit ''cattle'') (normalize_text basic_db (Some (lit ''Cattle farming'')))"
proof -
  have v: "find_keywords_in_text basic_db [lit ''dairy'', lit ''cattle''] (Some (lit ''Cattle farming''))
     = [lit ''cattle'']"
    by (simp add: eval_defs)
  have "lit ''cattle'' \<in> set [lit ''dairy'', lit ''cattle'']" by simp
  then have "flanked_occurrence basic_db (lit ''cattle'')
               (normalize_text basic_db (Some (lit ''Cattle farming'')))"
    using keyword_match_whole_word [OF ascii_conformant_basic_db,
        of "lit ''cattle''" "[lit ''dairy'', lit ''cattle'']" "lit ''Cattle farming''"]
      word_edged_cattle v
    by simp
  then show ?thesis using ascii_conformant_basic_db word_edged_cattle v by blast
qed

text \<open>
  Claim C3 as stated fails for the keyword \<^verbatim>\<open>a.i.\<close>: in \<^verbatim>\<open>a.i. services\<close> it stands
  between the start of the text and a space and is not reported, and in \<^verbatim>\<open>a.i.x\<close>
  it is followed by a word character and is reported.
\<close>

theorem keyword_with_non_word_edge:
  "flanked_occurrence basic_db (lit ''a.i.'') (normalize_text basic_db (Some (lit ''a.i. services''))) \<and>
   find_keywords_in_text basic_db [lit ''a.i.''] (Some (lit ''a.i. services'')) = [] \<and>
   find_keywords_in_text basic_db [lit ''a.i.''] (Some (lit ''a.i.x'')) = [lit ''a.i.'']"
proof -
  have n: "normalize_text basic_db (Some (lit ''a.i. services'')) = [] @ lit ''a.i.'' @ lit '' services''"
    by (simp add: eval_defs)
  have "list_all2 (re_ieq basic_db) (lit ''a.i.'') (lit ''a.i.'')"
    by (simp add: lit_def basic_db_def)
  moreover have "\<not> re_word basic_db (hd (lit '' services''))"
    by (simp add: lit_def basic_db_def ascii_word_def)
  ultimately have "flanked_occurrence basic_db (lit ''a.i.'')
      (normalize_text basic_db (Some (lit ''a.i. services'')))"
    unfolding flanked_occurrence_def using n by blast
  moreover have "find_keywords_in_text basic_db [lit ''a.i.''] (Some (lit ''a.i. services'')) = []"
    by (simp add: eval_defs)
  moreover have "find_keywords_in_text basic_db [lit ''a.i.''] (Some (lit ''a.i.x'')) = [lit ''a.i.'']"
    by (simp add: eval_defs)
  ultimately show ?thesis by blast
qed

section \<open>Labels of Strategy 1\<close>













section \<open>Stop words of the description capture\<close>

text \<open>
  Claim C7 at the lines \<^verbatim>\<open>Project: A\<close>, \<^verbatim>\<open>Description: d\<close>, \<^verbatim>\<open>Project Name: B\<close>,
  \<^verbatim>\<open>Budget: 5\<close>. The third line holds the name label \<^verbatim>\<open>project name:\<close> and starts
  project \<^verbatim>\<open>B\<close>, but it holds none of the stop words, so the capture that began at
  the second line runs over it: the description of \<^verbatim>\<open>A\<close> is \<^verbatim>\<open>d Project Name: B\<close>.
\<close>

theorem project_name_line_not_a_stop:
  "any_pattern_in basic_db name_patterns (lit ''Project Name: B'') \<and>
   \<not> any_pattern_in basic_db stop_words (lit ''Project Name: B'') \<and>
   strategy1 basic_db
     [lit ''Project: A'', lit ''Description: d'', lit ''Project Name: B'', lit ''Budget: 5'']
     = [\<lparr>project_name = lit ''A'', project_description = Some (lit ''d Project Name: B'')\<rparr>,
        \<lparr>project_name = lit ''B'', project_description = None\<rparr>]"
  by (simp add: extract_defs eval_defs)

section \<open>Normalisation is idempotent\<close>

subsection \<open>Canonical ordering\<close>

lemma set_insert_mark: "set (insert_mark U c acc) = insert c (set acc)"
  by (induction acc) auto

lemma set_foldl_insert_mark:
  "set (foldl (\<lambda>acc c. insert_mark U c acc) acc s) = set acc \<union> set s"
  by (induction s arbitrary: acc) (auto simp: set_insert_mark)

lemma set_canonical_order: "set (canonical_order U s) = set s"
  by (simp add: canonical_order_def set_foldl_insert_mark)

lemma hd_insert_mark:
  "hd (insert_mark U c acc) = c \<or> (acc \<noteq> [] \<and> hd (insert_mark U c acc) = hd acc)"
  by (cases acc) auto

lemma insert_mark_nonempty: "insert_mark U c acc \<noteq> []"
  by (cases acc) auto

lemma insert_mark_ordered:
  "successively (\<lambda>x y. in_order U y x) acc \<Longrightarrow>
   successively (\<lambda>x y. in_order U y x) (insert_mark U c acc)"
proof (induction acc)
  case Nil
  then show ?case by simp
next
  case (Cons p ps)
  have ps: "successively (\<lambda>x y. in_order U y x) ps"
    using Cons.prems by (auto simp: successively_Cons)
  show ?case
  proof (cases "ucd_ccc U p \<noteq> 0 \<and> ucd_ccc U c \<noteq> 0 \<and> ucd_ccc U c < ucd_ccc U p")
    case True
    have "in_order U (hd (insert_mark U c ps)) p"
      using hd_insert_mark[of U c ps]
    proof
      assume "hd (insert_mark U c ps) = c"
      then show ?thesis using True by (simp add: in_order_def)
    next
      assume "ps \<noteq> [] \<and> hd (insert_mark U c ps) = hd ps"
      then show ?thesis using Cons.prems by (auto simp: successively_Cons)
    qed
    then show ?thesis
      using True Cons.IH[OF ps] by (simp add: successively_Cons)
  next
    case False
    then have "in_order U p c" by (auto simp: in_order_def)
    then show ?thesis using False Cons.prems by (auto simp: successively_Cons)
  qed
qed

lemma foldl_insert_mark_ordered:
  "successively (\<lambda>x y. in_order U y x) acc \<Longrightarrow>
   successively (\<lambda>x y. in_order U y x) (foldl (\<lambda>acc c. insert_mark U c acc) acc s)"
  by (induction s arbitrary: acc) (auto simp: insert_mark_ordered)

lemma canonical_order_ordered: "successively (in_order U) (canonical_order U s)"
  using foldl_insert_mark_ordered[of U "[]" s] by (simp add: canonical_order_def)

lemma insert_mark_in_order:
  "acc = [] \<or> in_order U (hd acc) c \<Longrightarrow> insert_mark U c acc = c # acc"
  by (cases acc) (auto simp: in_order_def)

lemma foldl_insert_mark_id:
  "successively (in_order U) (rev acc @ s) \<Longrightarrow>
   foldl (\<lambda>acc c. insert_mark U c acc) acc s = rev s @ acc"
proof (induction s arbitrary: acc)
  case Nil
  then show ?case by simp
next
  case (Cons c cs)
  have "acc = [] \<or> in_order U (hd acc) c"
    using Cons.prems by (cases acc) (auto simp: successively_append_iff last_rev)
  then have i: "insert_mark U c acc = c # acc" by (rule insert_mark_in_order)
  have "successively (in_order U) (rev (c # acc) @ cs)" using Cons.prems by simp
  from Cons.IH[OF this] show ?case using i by simp
qed

lemma canonical_order_id: "successively (in_order U) s \<Longrightarrow> canonical_order U s = s"
  using foldl_insert_mark_id[of U "[]" s] by (simp add: canonical_order_def)

subsection \<open>Replacing and collapsing whitespace\<close>

lemma replace_ordered:
  assumes "successively (in_order U) t" and "ucd_ccc U a = 0" and "ucd_ccc U b = 0"
  shows "successively (in_order U) (replace a b t)"
proof -
  have "successively (\<lambda>x y. in_order U (if x = a then b else x) (if y = a then b else y)) t"
  proof (rule successively_mono[OF assms(1)])
    fix x y
    assume "in_order U x y"
    then show "in_order U (if x = a then b else x) (if y = a then b else y)"
      using assms(2,3) by (simp add: in_order_def)
  qed
  then show ?thesis by (simp add: replace_def successively_map)
qed

lemma set_replace: "set (replace a b t) \<subseteq> insert b (set t)"
  by (auto simp: replace_def)

lemma successively_dropWhile: "successively P xs \<Longrightarrow> successively P (dropWhile Q xs)"
  using takeWhile_dropWhile_id[of Q xs] successively_append_iff[of P "takeWhile Q xs" "dropWhile Q xs"]
  by simp

lemma collapse_spaces_Nil_iff: "collapse_spaces x = [] \<longleftrightarrow> x = []"
  by (cases x) auto

lemma hd_collapse_spaces: "hd (collapse_spaces (c # cs)) = (if isspace c then 32 else c)"
  by simp

lemma set_collapse_spaces: "set (collapse_spaces x) \<subseteq> insert 32 (set x)"
proof (induction x rule: collapse_spaces.induct)
  case 1
  then show ?case by simp
next
  case (2 c cs)
  have "set (dropWhile isspace cs) \<subseteq> set cs" by (auto dest: set_dropWhileD)
  then show ?case using 2 by auto
qed

lemma collapse_spaces_only_space: "\<forall>c\<in>set (collapse_spaces x). isspace c \<longrightarrow> c = 32"
proof (induction x rule: collapse_spaces.induct)
  case 1
  then show ?case by simp
next
  case (2 c cs)
  then show ?case by auto
qed

lemma collapse_spaces_ordered:
  assumes sp: "\<forall>c. isspace c \<longrightarrow> ucd_ccc U c = 0"
  shows "successively (in_order U) x \<Longrightarrow> successively (in_order U) (collapse_spaces x)"
proof (induction x rule: collapse_spaces.induct)
  case 1
  then show ?case by simp
next
  case (2 c cs)
  have z: "ucd_ccc U 32 = 0" using sp by (simp add: isspace_def)
  have cs: "successively (in_order U) cs" using "2.prems" by (auto simp: successively_Cons)
  show ?case
  proof (cases "isspace c")
    case True
    have "successively (in_order U) (collapse_spaces (dropWhile isspace cs))"
      using "2.IH"(1)[OF True successively_dropWhile[OF cs]] .
    moreover have "in_order U 32 y" for y using z by (simp add: in_order_def)
    ultimately show ?thesis using True by (simp add: successively_Cons)
  next
    case False
    have tail: "successively (in_order U) (collapse_spaces cs)" using "2.IH"(2)[OF False cs] .
    have "in_order U c (hd (collapse_spaces cs))" if ne: "cs \<noteq> []"
    proof -
      obtain d ds where d: "cs = d # ds" using ne by (cases cs) auto
      have "in_order U c d" using "2.prems" d by simp
      moreover have "in_order U c 32" using z by (simp add: in_order_def)
      ultimately show ?thesis using d by simp
    qed
    then show ?thesis using False tail by (auto simp: successively_Cons collapse_spaces_Nil_iff)
  qed
qed

lemma dropWhile_hd: "dropWhile P xs \<noteq> [] \<Longrightarrow> \<not> P (hd (dropWhile P xs))"
  by (rule hd_dropWhile)

lemma collapse_spaces_single:
  "successively (\<lambda>a b. \<not> (isspace a \<and> isspace b)) (collapse_spaces x)"
proof (induction x rule: collapse_spaces.induct)
  case 1
  then show ?case by simp
next
  case (2 c cs)
  show ?case
  proof (cases "isspace c")
    case True
    have "\<not> isspace (hd (collapse_spaces (dropWhile isspace cs)))"
      if ne: "dropWhile isspace cs \<noteq> []"
    proof -
      obtain d ds where d: "dropWhile isspace cs = d # ds"
        using ne by (cases "dropWhile isspace cs") auto
      have "\<not> isspace d" using hd_dropWhile[OF ne] d by simp
      then show ?thesis using d by simp
    qed
    then show ?thesis
      using True "2.IH"(1)[OF True] by (auto simp: successively_Cons collapse_spaces_Nil_iff)
  next
    case False
    then show ?thesis using "2.IH"(2)[OF False] by (auto simp: successively_Cons)
  qed
qed

lemma collapse_spaces_id:
  "\<forall>c\<in>set x. isspace c \<longrightarrow> c = 32 \<Longrightarrow>
   successively (\<lambda>a b. \<not> (isspace a \<and> isspace b)) x \<Longrightarrow> collapse_spaces x = x"
proof (induction x rule: collapse_spaces.induct)
  case 1
  then show ?case by simp
next
  case (2 c cs)
  have cs: "successively (\<lambda>a b. \<not> (isspace a \<and> isspace b)) cs"
    using "2.prems"(2) by (auto simp: successively_Cons)
  show ?case
  proof (cases "isspace c")
    case True
    have "cs = [] \<or> \<not> isspace (hd cs)" using "2.prems"(2) True by (auto simp: successively_Cons)
    then have d: "dropWhile isspace cs = cs" by (cases cs) auto
    have "collapse_spaces (dropWhile isspace cs) = dropWhile isspace cs"
      using "2.IH"(1)[OF True] "2.prems"(1) cs d by simp
    then show ?thesis using True d "2.prems"(1) by simp
  next
    case False
    then show ?thesis using "2.IH"(2)[OF False] "2.prems"(1) cs by simp
  qed
qed

subsection \<open>Stripping\<close>

lemma rev_dropWhile_split: "y = rev (dropWhile P (rev y)) @ rev (takeWhile P (rev y))"
proof -
  have "rev (takeWhile P (rev y) @ dropWhile P (rev y)) = rev (rev y)"
    by (simp only: takeWhile_dropWhile_id)
  then show ?thesis by (simp only: rev_append rev_rev_ident)
qed

lemma strip_split: "\<exists>pre post. x = pre @ strip x @ post"
proof -
  let ?y = "dropWhile isspace x"
  have "x = takeWhile isspace x @ ?y" by simp
  also have "?y = strip x @ rev (takeWhile isspace (rev ?y))"
    unfolding strip_def by (rule rev_dropWhile_split)
  finally show ?thesis by blast
qed

lemma set_strip: "set (strip x) \<subseteq> set x"
proof -
  obtain pre post where e: "x = pre @ strip x @ post" using strip_split by blast
  then have "set x = set (pre @ strip x @ post)" by (rule arg_cong)
  then show ?thesis by auto
qed

lemma successively_strip:
  assumes "successively P x"
  shows "successively P (strip x)"
proof -
  obtain pre post where e: "x = pre @ strip x @ post" using strip_split by blast
  then have "successively P x = successively P (pre @ strip x @ post)" by (rule arg_cong)
  then show ?thesis using assms by (simp add: successively_append_iff)
qed

lemma strip_ends:
  assumes "strip x \<noteq> []"
  shows "\<not> isspace (hd (strip x)) \<and> \<not> isspace (last (strip x))"
proof -
  let ?y = "dropWhile isspace x"
  let ?z = "dropWhile isspace (rev ?y)"
  have z: "?z \<noteq> []" using assms by (simp add: strip_def)
  have y: "?y \<noteq> []"
  proof
    assume e: "?y = []"
    have "?z = []" by (simp only: e rev.simps dropWhile.simps)
    then show False using z by (simp only: not_True_eq_False simp_thms)
  qed
  have "last (strip x) = hd ?z" using z by (simp add: strip_def last_rev)
  then have l: "\<not> isspace (last (strip x))" using hd_dropWhile[OF z] by simp
  have "last (takeWhile isspace (rev ?y) @ ?z) = last ?z" using z by (rule last_appendR)
  then have "last (rev ?y) = last ?z" by (simp only: takeWhile_dropWhile_id)
  then have "hd (strip x) = hd ?y" using y z by (simp add: strip_def hd_rev last_rev)
  then have "\<not> isspace (hd (strip x))" using hd_dropWhile[OF y] by simp
  then show ?thesis using l by simp
qed

lemma strip_id:
  assumes "y = [] \<or> (\<not> isspace (hd y) \<and> \<not> isspace (last y))"
  shows "strip y = y"
proof (cases "y = []")
  case True
  then show ?thesis by (simp add: strip_def)
next
  case False
  then have h: "\<not> isspace (hd y)" and l: "\<not> isspace (last y)" using assms by auto
  have "dropWhile isspace y = y" using False h by (cases y) auto
  moreover have "dropWhile isspace (rev y) = rev y"
    using False l by (cases "rev y") (auto simp: last_rev hd_rev[symmetric])
  ultimately show ?thesis by (simp add: strip_def)
qed

lemma strip_strip: "strip (strip x) = strip x"
  using strip_ends[of x] by (intro strip_id) blast

subsection \<open>The normal form\<close>

lemma concat_decomp_id: "\<forall>c\<in>set r. ucd_decomp U c = [c] \<Longrightarrow> concat (map (ucd_decomp U) r) = r"
  by (induction r) auto

lemma nfkd_decomposed:
  assumes "ucd_stable U"
  shows "\<forall>c\<in>set (nfkd U s). ucd_decomp U c = [c]"
  using assms by (auto simp: nfkd_def set_canonical_order ucd_stable_def)

lemma nfkd_ordered: "successively (in_order U) (nfkd U s)"
  by (simp add: nfkd_def canonical_order_ordered)

lemma nfkd_id:
  assumes "\<forall>c\<in>set r. ucd_decomp U c = [c]" and "successively (in_order U) r"
  shows "nfkd U r = r"
  using assms by (simp add: nfkd_def concat_decomp_id canonical_order_id)

text \<open>
  A text is normal when it is decomposed and canonically ordered, its only whitespace
  is single spaces, and it neither starts nor ends with one.
\<close>

lemma normal_fixed:
  assumes dec: "\<forall>c\<in>set r. ucd_decomp U c = [c]"
    and ord: "successively (in_order U) r"
    and only: "\<forall>c\<in>set r. isspace c \<longrightarrow> c = 32"
    and single: "successively (\<lambda>a b. \<not> (isspace a \<and> isspace b)) r"
    and ends: "r = [] \<or> (\<not> isspace (hd r) \<and> \<not> isspace (last r))"
  shows "normalize_text U (Some r) = r"
proof -
  have sp: "isspace 160" "isspace 8199" "isspace 8201" "isspace 8202"
    by (simp_all add: isspace_def)
  have "160 \<notin> set r" "8199 \<notin> set r" "8201 \<notin> set r" "8202 \<notin> set r"
    using only sp by auto
  then have "replace 8202 32 (replace 8201 32 (replace 8199 32 (replace 160 32 r))) = r"
    by (simp add: replace_absent)
  then show ?thesis
    using nfkd_id[OF dec ord] collapse_spaces_id[OF only single] strip_id[OF ends]
    by (simp add: normalize_text_def)
qed

lemma normalize_text_normal:
  fixes s :: ustr
  assumes st: "ucd_stable U"
  defines "r \<equiv> normalize_text U (Some s)"
  shows "(\<forall>c\<in>set r. ucd_decomp U c = [c]) \<and> successively (in_order U) r \<and>
         (\<forall>c\<in>set r. isspace c \<longrightarrow> c = 32) \<and>
         successively (\<lambda>a b. \<not> (isspace a \<and> isspace b)) r \<and>
         (r = [] \<or> (\<not> isspace (hd r) \<and> \<not> isspace (last r)))"
proof -
  let ?t = "nfkd U s"
  let ?t1 = "replace 8202 32 (replace 8201 32 (replace 8199 32 (replace 160 32 ?t)))"
  let ?t2 = "collapse_spaces ?t1"
  have r: "r = strip ?t2" by (simp add: r_def normalize_text_def)
  have z: "\<forall>c. isspace c \<longrightarrow> ucd_ccc U c = 0" and d32: "ucd_decomp U 32 = [32]"
    using st by (simp_all add: ucd_stable_def)
  have zs: "ucd_ccc U 160 = 0" "ucd_ccc U 8199 = 0" "ucd_ccc U 8201 = 0" "ucd_ccc U 8202 = 0"
    "ucd_ccc U 32 = 0"
    using z by (simp_all add: isspace_def)
  have set1: "set ?t1 \<subseteq> insert 32 (set ?t)"
    using set_replace[of 8202 32 "replace 8201 32 (replace 8199 32 (replace 160 32 ?t))"]
      set_replace[of 8201 32 "replace 8199 32 (replace 160 32 ?t)"]
      set_replace[of 8199 32 "replace 160 32 ?t"] set_replace[of 160 32 ?t]
    by blast
  have ord1: "successively (in_order U) ?t1"
    by (intro replace_ordered nfkd_ordered zs)
  have set2: "set ?t2 \<subseteq> insert 32 (set ?t)"
    using set_collapse_spaces[of ?t1] set1 by blast
  have ord2: "successively (in_order U) ?t2"
    using collapse_spaces_ordered[OF z ord1] .
  have setr: "set r \<subseteq> set ?t2" unfolding r by (rule set_strip)
  have dec: "\<forall>c\<in>set r. ucd_decomp U c = [c]"
    using setr set2 nfkd_decomposed[OF st, of s] d32 by blast
  have ord: "successively (in_order U) r"
    unfolding r using ord2 by (rule successively_strip)
  have only: "\<forall>c\<in>set r. isspace c \<longrightarrow> c = 32"
    using setr collapse_spaces_only_space[of ?t1] by blast
  have single: "successively (\<lambda>a b. \<not> (isspace a \<and> isspace b)) r"
    unfolding r using collapse_spaces_single by (rule successively_strip)
  have ends: "r = [] \<or> (\<not> isspace (hd r) \<and> \<not> isspace (last r))"
    unfolding r using strip_ends[of ?t2] by blast
  show ?thesis using dec ord only single ends by blast
qed

text \<open>
  Claim C4. Normalising a normalised text changes nothing:
  \<^verbatim>\<open>normalize(normalize(s)) == normalize(s)\<close> for every string \<open>s\<close>, whatever Unicode
  spaces, runs of whitespace and composed characters it holds. The Unicode tables enter
  through three facts of the Unicode Character Database (\<open>ucd_stable\<close>): a full
  decomposition decomposes no further, whitespace characters are starters, and the
  space has no decomposition.
\<close>

theorem normalize_text_idempotent:
  assumes "ucd_stable U"
  shows "normalize_text U (Some (normalize_text U (Some s))) = normalize_text U (Some s)"
  using normalize_text_normal[OF assms, of s] by (intro normal_fixed) blast+

lemma ucd_stable_basic_db: "ucd_stable basic_db"
  by (auto simp: ucd_stable_def basic_db_def isspace_def split: if_splits)

text \<open>
  The theorem at a text with a no-break space, a figure, a thin and a hair space, a
  newline and a tab, the composed letter U+00E9 followed by a cedilla, and an
  \<^verbatim>\<open>x\<close> with an acute accent and a cedilla in the wrong order.
\<close>

theorem normalize_text_idempotent_witness:
  "ucd_stable basic_db \<and>
   normalize_text basic_db (Some [160, 32, 233, 807, 8199, 8201, 8202, 10, 120, 769, 807, 9])
     = [101, 807, 769, 32, 120, 807, 769] \<and>
   normalize_text basic_db
     (Some (normalize_text basic_db (Some [160, 32, 233, 807, 8199, 8201, 8202, 10, 120, 769, 807, 9])))
     = [101, 807, 769, 32, 120, 807, 769]"
proof -
  have v: "normalize_text basic_db (Some [160, 32, 233, 807, 8199, 8201, 8202, 10, 120, 769, 807, 9])
     = [101, 807, 769, 32, 120, 807, 769]"
    by (simp add: eval_defs)
  show ?thesis
    using normalize_text_idempotent [OF ucd_stable_basic_db,
        of "[160, 32, 233, 807, 8199, 8201, 8202, 10, 120, 769, 807, 9]"]
      ucd_stable_basic_db v
    by simp
qed

end
